theory Spec2Isabelle
  imports Main
begin

section \<open>Calendar dates\<close>

text \<open>
  Every date of the program is produced by \<^verbatim>\<open>datetime.strptime(v, "%d/%m/%y")\<close>, so its
  time of day is always midnight and only the calendar fields matter. A date is the
  triple of its fields, as Python's \<^verbatim>\<open>datetime(year, month, day)\<close>.
\<close>

datatype datetime = Datetime (year: int) (month: int) (day: int)

text \<open>
  The calendar arithmetic of Python's \<^verbatim>\<open>datetime\<close> module (\<^verbatim>\<open>_is_leap\<close>,
  \<^verbatim>\<open>_days_in_month\<close>, \<^verbatim>\<open>_days_before_year\<close>, \<^verbatim>\<open>_days_before_month\<close>,
  \<^verbatim>\<open>_ymd2ord\<close>), the proleptic Gregorian calendar that polars uses as well.
\<close>

definition is_leap :: "int \<Rightarrow> bool" where
  "is_leap y = (y mod 4 = 0 \<and> (y mod 100 \<noteq> 0 \<or> y mod 400 = 0))"

definition days_in_month :: "int \<Rightarrow> int \<Rightarrow> int" where
  "days_in_month y m =
     (if m = 2 then (if is_leap y then 29 else 28)
      else if m = 4 \<or> m = 6 \<or> m = 9 \<or> m = 11 then 30
      else 31)"

definition days_before_year :: "int \<Rightarrow> int" where
  "days_before_year y = (let p = y - 1 in p * 365 + p div 4 - p div 100 + p div 400)"

definition days_before_month :: "int \<Rightarrow> int \<Rightarrow> int" where
  "days_before_month y m =
     (if m \<le> 1 then 0 else if m = 2 then 31 else if m = 3 then 59 else if m = 4 then 90
      else if m = 5 then 120 else if m = 6 then 151 else if m = 7 then 181
      else if m = 8 then 212 else if m = 9 then 243 else if m = 10 then 273
      else if m = 11 then 304 else 334)
     + (if 2 < m \<and> is_leap y then 1 else 0)"

text \<open>A date that the \<^verbatim>\<open>datetime\<close> constructor accepts: the day exists in its month.\<close>

definition valid_date :: "datetime \<Rightarrow> bool" where
  "valid_date d =
     (1 \<le> month d \<and> month d \<le> 12 \<and> 1 \<le> day d \<and> day d \<le> days_in_month (year d) (month d))"

text \<open>
  \<^verbatim>\<open>toordinal\<close>: the day number of a date. Polars stores a \<^verbatim>\<open>Date\<close> as the number
  of days since 1970-01-01, which is this number minus a constant, so dates are compared,
  and the distance between two dates is taken, through it.
\<close>

definition toordinal :: "datetime \<Rightarrow> int" where
  "toordinal d = days_before_year (year d) + days_before_month (year d) (month d) + day d"

text \<open>The date one day later (adding the interval \<^verbatim>\<open>1d\<close>).\<close>

definition next_day :: "datetime \<Rightarrow> datetime" where
  "next_day d =
     (if day d < days_in_month (year d) (month d) then Datetime (year d) (month d) (day d + 1)
      else if month d < 12 then Datetime (year d) (month d + 1) 1
      else Datetime (year d + 1) 1 1)"

section \<open>The validated input model\<close>

text \<open>
  The pydantic models \<^verbatim>\<open>Comment\<close> and \<^verbatim>\<open>InstagramData\<close>. The field \<^verbatim>\<open>date\<close> of a
  comment is written \<open>comment_date\<close> here (and \<open>comment_user\<close>, \<open>comment_count\<close>),
  since the daily table has a column \<^verbatim>\<open>date\<close> of its own. Python's \<^verbatim>\<open>int\<close> is
  unbounded, hence \<open>int\<close>.
\<close>

record comment =
  comment_date :: datetime
  comment_user :: string
  comment_count :: int

record instagram_data =
  periodStart :: datetime
  periodEnd :: datetime
  monthlyPostingDay :: int
  comments :: "comment list"

subsection \<open>Raw values and errors\<close>

text \<open>
  The raw record that \<^verbatim>\<open>model_validate\<close> receives is the Python value that
  \<^verbatim>\<open>json.loads\<close> returns: \<^verbatim>\<open>None\<close>, a bool, an int, a str, a list or a dict (whose
  keys are distinct; a lookup takes the first entry of a key). Numbers with a fraction
  or an exponent are not part of this model. A \<open>string\<close> is a list of 8-bit characters:
  the inputs are ASCII text.
\<close>

datatype json =
    JNull
  | JBool bool
  | JInt int
  | JStr string
  | JList "json list"
  | JObj "(string \<times> json) list"

text \<open>
  One entry of a pydantic \<^verbatim>\<open>ValidationError\<close>: the kind of the error, the location (field
  names and list indices from the root), the message and the offending input value.
\<close>

datatype loc_item = Key string | Idx nat

record line_error =
  err_type :: string
  loc :: "loc_item list"
  msg :: string
  input :: json

text \<open>
  The exceptions of the program. \<open>ValueError\<close>, \<open>TypeError\<close> and \<open>IndexError\<close> are raised
  inside validators; pydantic turns a \<open>ValueError\<close> of a validator into an entry of its
  \<open>ValidationError\<close> and lets the other two pass. \<open>InvalidOperationError\<close> is polars'.
\<close>

datatype error =
    ValueError string
  | TypeError
  | IndexError
  | ValidationError "line_error list"
  | InvalidOperationError

subsection \<open>\<^verbatim>\<open>datetime.strptime(v, "%d/%m/%y")\<close>\<close>

text \<open>
  \<^verbatim>\<open>strptime\<close> compiles the format into a regular expression and matches it against
  the start of the string with \<^verbatim>\<open>re.match\<close>. For this format the expression is
  \<^verbatim>\<open>(?P<d>3[0-1]|[1-2]\d|0[1-9]|[1-9]| [1-9])/(?P<m>1[0-2]|0[1-9]|[1-9])/(?P<y>\d\d)\<close>.
  The expressions needed are literals, character classes, sequence and ordered
  alternative; \<open>rmatch\<close> returns what remains of the string after each way of matching,
  in the order in which a backtracking matcher tries them.
\<close>

datatype regex = Lit char | Class string | Seq regex regex | Alt regex regex

fun rmatch :: "regex \<Rightarrow> string \<Rightarrow> string list" where
  "rmatch (Lit c) s = (case s of [] \<Rightarrow> [] | x # r \<Rightarrow> if x = c then [r] else [])"
| "rmatch (Class cs) s = (case s of [] \<Rightarrow> [] | x # r \<Rightarrow> if x \<in> set cs then [r] else [])"
| "rmatch (Seq a b) s = concat (map (rmatch b) (rmatch a s))"
| "rmatch (Alt a b) s = rmatch a s @ rmatch b s"

text \<open>A named group: the text it matched, with the rest of the string.\<close>

definition rgroup :: "regex \<Rightarrow> string \<Rightarrow> (string \<times> string) list" where
  "rgroup re s = map (\<lambda>r. (take (length s - length r) s, r)) (rmatch re s)"

definition re_d :: regex where
  "re_d = Alt (Seq (Lit CHR ''3'') (Class ''01''))
         (Alt (Seq (Class ''12'') (Class ''0123456789''))
         (Alt (Seq (Lit CHR ''0'') (Class ''123456789''))
         (Alt (Class ''123456789'')
              (Seq (Lit CHR '' '') (Class ''123456789'')))))"

definition re_m :: regex where
  "re_m = Alt (Seq (Lit CHR ''1'') (Class ''012''))
         (Alt (Seq (Lit CHR ''0'') (Class ''123456789''))
              (Class ''123456789''))"

definition re_y :: regex where
  "re_y = Seq (Class ''0123456789'') (Class ''0123456789'')"

text \<open>The three parts of the expression: \<^verbatim>\<open>(?P<d>...)/\<close>, \<^verbatim>\<open>(?P<m>...)/\<close> and \<^verbatim>\<open>(?P<y>\d\d)\<close>.\<close>

definition match_d :: "string \<Rightarrow> (string \<times> string) list" where
  "match_d s = [(g, r2). (g, r1) \<leftarrow> rgroup re_d s, r2 \<leftarrow> rmatch (Lit CHR ''/'') r1]"

definition match_m :: "string \<Rightarrow> (string \<times> string) list" where
  "match_m s = [(g, r2). (g, r1) \<leftarrow> rgroup re_m s, r2 \<leftarrow> rmatch (Lit CHR ''/'') r1]"

definition match_y :: "string \<Rightarrow> (string \<times> string) list" where
  "match_y s = rgroup re_y s"

text \<open>
  \<^verbatim>\<open>format_regex.match(data_string)\<close>: the first match, as the groups \<open>d\<close>, \<open>m\<close>, \<open>y\<close> and
  the part of the string after the match.
\<close>

definition format_regex_match :: "string \<Rightarrow> (string \<times> string \<times> string \<times> string) option" where
  "format_regex_match s =
     (case [(d, m, y, r). (d, r1) \<leftarrow> match_d s, (m, r2) \<leftarrow> match_m r1, (y, r) \<leftarrow> match_y r2] of
        [] \<Rightarrow> None
      | found # _ \<Rightarrow> Some found)"

text \<open>Python's \<^verbatim>\<open>int(s)\<close> on the text of a group: digits, after an optional blank.\<close>

definition digit_value :: "char \<Rightarrow> int" where
  "digit_value c = int (of_char c) - 48"

definition py_int :: "string \<Rightarrow> int" where
  "py_int s = foldl (\<lambda>n c. 10 * n + digit_value c) 0 (dropWhile (\<lambda>c. c = CHR '' '') s)"

text \<open>
  \<open>strptime\<close> returns \<open>None\<close> where Python raises \<^verbatim>\<open>ValueError\<close>: the string does not
  match, text remains after the match, or the \<^verbatim>\<open>datetime\<close> constructor refuses the day.
  A two-digit year up to 68 is of the century 2000, from 69 on of the century 1900.
\<close>

definition strptime :: "string \<Rightarrow> datetime option" where
  "strptime data_string =
     (case format_regex_match data_string of
        None \<Rightarrow> None
      | Some (d, m, y, rest) \<Rightarrow>
          if rest \<noteq> [] then None
          else
            let year = (if py_int y \<le> 68 then py_int y + 2000 else py_int y + 1900);
                month = py_int m;
                day = py_int d
            in if valid_date (Datetime year month day) then Some (Datetime year month day)
               else None)"

subsection \<open>The validators of the two models\<close>

text \<open>
  \<^verbatim>\<open>Comment.validate_dates\<close> and \<^verbatim>\<open>InstagramData.validate_dates\<close>, both
  \<^verbatim>\<open>mode="before"\<close>: they get the raw value. \<^verbatim>\<open>strptime\<close> raises \<^verbatim>\<open>TypeError\<close> on a
  value that is not a string, which the \<^verbatim>\<open>except ValueError\<close> does not catch.
\<close>

definition Comment_validate_dates :: "json \<Rightarrow> error + datetime" where
  "Comment_validate_dates v =
     (case v of
        JStr s \<Rightarrow>
          (case strptime s of
             Some d \<Rightarrow> Inr d
           | None \<Rightarrow> Inl (ValueError (''Invalid date format: '' @ s)))
      | _ \<Rightarrow> Inl TypeError)"

definition InstagramData_validate_dates :: "json \<Rightarrow> error + datetime" where
  "InstagramData_validate_dates v =
     (case v of
        JStr s \<Rightarrow>
          (case strptime s of
             Some d \<Rightarrow> Inr d
           | None \<Rightarrow> Inl (ValueError (''Invalid date format: '' @ s)))
      | _ \<Rightarrow> Inl TypeError)"

definition validate_day :: "int \<Rightarrow> error + int" where
  "validate_day v =
     (if \<not> (1 \<le> v \<and> v \<le> 31) then Inl (ValueError ''Monthly posting day must be between 1 and 31'')
      else Inr v)"

text \<open>
  \<^verbatim>\<open>convert_comments\<close>: a list all of whose elements are lists becomes the list of the
  dicts of their first three items; \<^verbatim>\<open>item[2]\<close> raises \<^verbatim>\<open>IndexError\<close> on a shorter
  list. Any other value is returned as it is.
\<close>

definition is_list :: "json \<Rightarrow> bool" where
  "is_list v = (case v of JList _ \<Rightarrow> True | _ \<Rightarrow> False)"

definition convert_item :: "json \<Rightarrow> error + json" where
  "convert_item item =
     (case item of
        JList (d # u # c # _) \<Rightarrow> Inr (JObj [(''date'', d), (''user'', u), (''count'', c)])
      | _ \<Rightarrow> Inl IndexError)"

fun convert_items :: "json list \<Rightarrow> error + json list" where
  "convert_items [] = Inr []"
| "convert_items (item # v) =
     (case convert_item item of
        Inl e \<Rightarrow> Inl e
      | Inr x \<Rightarrow> (case convert_items v of Inl e \<Rightarrow> Inl e | Inr xs \<Rightarrow> Inr (x # xs)))"

definition convert_comments :: "json \<Rightarrow> error + json" where
  "convert_comments v =
     (case v of
        JList items \<Rightarrow>
          if list_all is_list items
          then (case convert_items items of Inl e \<Rightarrow> Inl e | Inr xs \<Rightarrow> Inr (JList xs))
          else Inr v
      | _ \<Rightarrow> Inr v)"

subsection \<open>pydantic's part of the validation\<close>

text \<open>
  What pydantic (version 2, lax mode, Python input) does around the validators. A
  \<^verbatim>\<open>ValueError\<close> raised by a validator becomes an entry of kind \<^verbatim>\<open>value_error\<close> holding
  the value the field was given; any other exception passes through.
\<close>

definition value_error :: "json \<Rightarrow> error + 'a \<Rightarrow> error + 'a" where
  "value_error v r =
     (case r of
        Inl (ValueError m) \<Rightarrow>
          Inl (ValidationError
            [\<lparr>err_type = ''value_error'', loc = [], msg = ''Value error, '' @ m, input = v\<rparr>])
      | _ \<Rightarrow> r)"

text \<open>The entries of an inner error are located under the field or index they belong to.\<close>

definition at_loc :: "loc_item \<Rightarrow> error + 'a \<Rightarrow> error + 'a" where
  "at_loc l r =
     (case r of
        Inl (ValidationError es) \<Rightarrow> Inl (ValidationError (map (\<lambda>e. e\<lparr>loc := l # loc e\<rparr>) es))
      | _ \<Rightarrow> r)"

text \<open>
  Fields and list items are validated in order and the entries of all of them are
  collected; an exception that is not a validation error ends the validation at once.
\<close>

fun collect :: "error + 'a \<Rightarrow> error + 'b \<Rightarrow> error + ('a \<times> 'b)" where
  "collect (Inl (ValidationError e1)) (Inl (ValidationError e2)) = Inl (ValidationError (e1 @ e2))"
| "collect (Inl (ValidationError e1)) (Inl e) = Inl e"
| "collect (Inl (ValidationError e1)) (Inr b) = Inl (ValidationError e1)"
| "collect (Inl e) r = Inl e"
| "collect (Inr a) (Inl e) = Inl e"
| "collect (Inr a) (Inr b) = Inr (a, b)"

text \<open>
  The types \<^verbatim>\<open>str\<close> and \<^verbatim>\<open>int\<close>. Of the coercions of lax mode only bool to int is
  modelled: a numeric string given for an int field is refused here.
\<close>

definition validate_str :: "json \<Rightarrow> error + string" where
  "validate_str v =
     (case v of
        JStr s \<Rightarrow> Inr s
      | _ \<Rightarrow> Inl (ValidationError
          [\<lparr>err_type = ''string_type'', loc = [], msg = ''Input should be a valid string'', input = v\<rparr>]))"

definition validate_int :: "json \<Rightarrow> error + int" where
  "validate_int v =
     (case v of
        JInt n \<Rightarrow> Inr n
      | JBool b \<Rightarrow> Inr (if b then 1 else 0)
      | _ \<Rightarrow> Inl (ValidationError
          [\<lparr>err_type = ''int_type'', loc = [], msg = ''Input should be a valid integer'', input = v\<rparr>]))"

text \<open>A field of a dict: a missing key is an entry of kind \<^verbatim>\<open>missing\<close>.\<close>

definition field :: "(string \<times> json) list \<Rightarrow> string \<Rightarrow> (json \<Rightarrow> error + 'a) \<Rightarrow> error + 'a" where
  "field kv name validator =
     (case map_of kv name of
        None \<Rightarrow> Inl (ValidationError
          [\<lparr>err_type = ''missing'', loc = [Key name], msg = ''Field required'', input = JObj kv\<rparr>])
      | Some v \<Rightarrow> at_loc (Key name) (validator v))"

text \<open>The model \<^verbatim>\<open>Comment\<close>.\<close>

definition Comment_validate :: "json \<Rightarrow> error + comment" where
  "Comment_validate v =
     (case v of
        JObj kv \<Rightarrow>
          (case collect (field kv ''date'' (\<lambda>x. value_error x (Comment_validate_dates x)))
                 (collect (field kv ''user'' validate_str) (field kv ''count'' validate_int)) of
             Inl e \<Rightarrow> Inl e
           | Inr (d, u, c) \<Rightarrow> Inr \<lparr>comment_date = d, comment_user = u, comment_count = c\<rparr>)
      | _ \<Rightarrow> Inl (ValidationError
          [\<lparr>err_type = ''model_type'', loc = [],
            msg = ''Input should be a valid dictionary or instance of Comment'', input = v\<rparr>]))"

text \<open>The type \<^verbatim>\<open>List[Comment]\<close>: the items from index \<open>i\<close> on.\<close>

fun validate_items :: "nat \<Rightarrow> json list \<Rightarrow> error + comment list" where
  "validate_items i [] = Inr []"
| "validate_items i (x # xs) =
     (case collect (at_loc (Idx i) (Comment_validate x)) (validate_items (Suc i) xs) of
        Inl e \<Rightarrow> Inl e
      | Inr (c, cs) \<Rightarrow> Inr (c # cs))"

definition validate_list :: "json \<Rightarrow> error + comment list" where
  "validate_list v =
     (case v of
        JList xs \<Rightarrow> validate_items 0 xs
      | _ \<Rightarrow> Inl (ValidationError
          [\<lparr>err_type = ''list_type'', loc = [], msg = ''Input should be a valid list'', input = v\<rparr>]))"

text \<open>
  The field \<^verbatim>\<open>comments\<close>: \<^verbatim>\<open>convert_comments\<close> runs first (\<^verbatim>\<open>mode="before"\<close>), then
  the list and its items are validated.
\<close>

definition validate_comments :: "json \<Rightarrow> error + comment list" where
  "validate_comments v =
     (case value_error v (convert_comments v) of
        Inl e \<Rightarrow> Inl e
      | Inr v' \<Rightarrow> validate_list v')"

text \<open>
  The field \<^verbatim>\<open>monthlyPostingDay\<close>: the int is validated first, then \<^verbatim>\<open>validate_day\<close>
  runs on it.
\<close>

definition validate_monthlyPostingDay :: "json \<Rightarrow> error + int" where
  "validate_monthlyPostingDay v =
     (case validate_int v of
        Inl e \<Rightarrow> Inl e
      | Inr n \<Rightarrow> value_error v (validate_day n))"

text \<open>\<^verbatim>\<open>InstagramData.model_validate\<close>.\<close>

definition model_validate :: "json \<Rightarrow> error + instagram_data" where
  "model_validate v =
     (case v of
        JObj kv \<Rightarrow>
          (case collect (field kv ''periodStart'' (\<lambda>x. value_error x (InstagramData_validate_dates x)))
                 (collect (field kv ''periodEnd'' (\<lambda>x. value_error x (InstagramData_validate_dates x)))
                   (collect (field kv ''monthlyPostingDay'' validate_monthlyPostingDay)
                            (field kv ''comments'' validate_comments))) of
             Inl e \<Rightarrow> Inl e
           | Inr (s, e, p, cs) \<Rightarrow>
               Inr \<lparr>periodStart = s, periodEnd = e, monthlyPostingDay = p, comments = cs\<rparr>)
      | _ \<Rightarrow> Inl (ValidationError
          [\<lparr>err_type = ''model_type'', loc = [],
            msg = ''Input should be a valid dictionary or instance of InstagramData'', input = v\<rparr>]))"

section \<open>The polars operations the aggregator uses\<close>

text \<open>
  A data frame is the list of its rows, in row order. The daily table has the columns
  \<^verbatim>\<open>date\<close>, \<^verbatim>\<open>post_day\<close>, \<^verbatim>\<open>num_comments\<close> and, once
  \<^verbatim>\<open>calculate_daily_sums\<close> has run, \<^verbatim>\<open>total_activities\<close> (\<open>None\<close> while the column
  does not exist). Column arithmetic is on mathematical integers: the 64-bit range of the
  polars columns is not modelled.
\<close>

record daily_row =
  date :: datetime
  post_day :: int
  num_comments :: int
  total_activities :: "int option"

text \<open>
  The monthly table: \<^verbatim>\<open>month_date\<close>, \<^verbatim>\<open>num_posts\<close>, \<^verbatim>\<open>num_comments\<close> (written
  \<open>month_num_comments\<close>, the name \<open>num_comments\<close> being the daily column's).
\<close>

record monthly_row =
  month_date :: datetime
  num_posts :: int
  month_num_comments :: int

text \<open>
  \<^verbatim>\<open>pl.date_range(start, end, eager=True)\<close>: the dates from \<open>start\<close> to \<open>end\<close>, both
  included, one day apart; empty when \<open>end\<close> is before \<open>start\<close>.
\<close>

fun dates_from :: "datetime \<Rightarrow> nat \<Rightarrow> datetime list" where
  "dates_from d 0 = []"
| "dates_from d (Suc n) = d # dates_from (next_day d) n"

definition date_range :: "datetime \<Rightarrow> datetime \<Rightarrow> datetime list" where
  "date_range start end = dates_from start (nat (toordinal end - toordinal start + 1))"

text \<open>\<^verbatim>\<open>pl.col("date").dt.day()\<close>: the day of the month.\<close>

definition dt_day :: "datetime \<Rightarrow> int" where
  "dt_day d = day d"

text \<open>
  \<^verbatim>\<open>df.join(comments_df, on="date", how="left")\<close>: every row of the left table is kept,
  in order; a left row with no match in the right table gets a null \<^verbatim>\<open>count\<close>, and a
  left row with several matches is repeated, once per matching right row (in the right
  table's order).
\<close>

definition join_left :: "daily_row list \<Rightarrow> (datetime \<times> int) list \<Rightarrow> (daily_row \<times> int option) list" where
  "join_left df comments_df =
     concat (map (\<lambda>r.
        case filter (\<lambda>c. fst c = date r) comments_df of
          [] \<Rightarrow> [(r, None)]
        | ms \<Rightarrow> map (\<lambda>c. (r, Some (snd c))) ms) df)"

text \<open>\<^verbatim>\<open>fill_null(0)\<close> on one value of a column.\<close>

definition fill_null :: "int \<Rightarrow> int option \<Rightarrow> int" where
  "fill_null v x = (case x of None \<Rightarrow> v | Some n \<Rightarrow> n)"

text \<open>
  \<^verbatim>\<open>group_by_dynamic("date", every="1mo")\<close> puts each row into the window of its
  calendar month; the window's label is its lower boundary, the first day of the month.
\<close>

definition truncate_1mo :: "datetime \<Rightarrow> datetime" where
  "truncate_1mo d = Datetime (year d) (month d) 1"

text \<open>
  The windows of a frame whose \<^verbatim>\<open>date\<close> column is sorted: runs of consecutive rows of
  the same month, in row order. Only windows that hold a row are produced.
\<close>

fun windows :: "daily_row list \<Rightarrow> (datetime \<times> daily_row list) list" where
  "windows [] = []"
| "windows (r # rs) =
     (case windows rs of
        [] \<Rightarrow> [(truncate_1mo (date r), [r])]
      | (k, g) # gs \<Rightarrow>
          if k = truncate_1mo (date r) then (k, r # g) # gs
          else (truncate_1mo (date r), [r]) # (k, g) # gs)"

text \<open>
  \<^verbatim>\<open>group_by_dynamic\<close> refuses an index column that is not sorted ascending
  (\<^verbatim>\<open>InvalidOperationError\<close>).
\<close>

definition group_by_dynamic :: "daily_row list \<Rightarrow> error + (datetime \<times> daily_row list) list" where
  "group_by_dynamic df =
     (if sorted (map (\<lambda>r. toordinal (date r)) df) then Inr (windows df)
      else Inl InvalidOperationError)"

section \<open>ActivityAggregator\<close>

record activity_aggregator =
  ig_data :: instagram_data
  daily_data_df :: "daily_row list"
  monthly_data_df :: "monthly_row list option"

definition initialise_daily_data :: "instagram_data \<Rightarrow> daily_row list" where
  "initialise_daily_data ig =
     (let dates = date_range (periodStart ig) (periodEnd ig);
          df = map (\<lambda>d. \<lparr>date = d,
                          post_day = (if dt_day d = monthlyPostingDay ig then 1 else 0),
                          num_comments = 0,
                          total_activities = None\<rparr>) dates;
          comments_df = map (\<lambda>c. (comment_date c, comment_count c)) (comments ig)
      in map (\<lambda>(r, cnt). r\<lparr>num_comments := num_comments r + fill_null 0 cnt\<rparr>)
           (join_left df comments_df))"

text \<open>The constructor \<^verbatim>\<open>__init__\<close>.\<close>

definition ActivityAggregator :: "instagram_data \<Rightarrow> activity_aggregator" where
  "ActivityAggregator ig =
     \<lparr>ig_data = ig, daily_data_df = initialise_daily_data ig, monthly_data_df = None\<rparr>"

definition calculate_daily_sums :: "activity_aggregator \<Rightarrow> activity_aggregator" where
  "calculate_daily_sums a =
     a\<lparr>daily_data_df :=
         map (\<lambda>r. r\<lparr>total_activities := Some (post_day r + num_comments r)\<rparr>) (daily_data_df a)\<rparr>"

text \<open>
  \<^verbatim>\<open>calculate_monthly_aggregates\<close> returns the monthly table and stores it in the
  object: the result is the table and the updated object.
\<close>

definition calculate_monthly_aggregates ::
    "activity_aggregator \<Rightarrow> error + (monthly_row list \<times> activity_aggregator)" where
  "calculate_monthly_aggregates a =
     (case group_by_dynamic (daily_data_df a) of
        Inl e \<Rightarrow> Inl e
      | Inr ws \<Rightarrow>
          let monthly_aggregate_df =
                map (\<lambda>(k, g). \<lparr>month_date = k,
                                num_posts = sum_list (map post_day g),
                                month_num_comments = sum_list (map num_comments g)\<rparr>) ws
          in Inr (monthly_aggregate_df, a\<lparr>monthly_data_df := Some monthly_aggregate_df\<rparr>))"

section \<open>Notions used by the statements\<close>

text \<open>
  The dates of a validated record exist in the calendar: each is a value that
  \<^verbatim>\<open>strptime\<close> returned.
\<close>

definition valid_dates :: "instagram_data \<Rightarrow> bool" where
  "valid_dates ig =
     (valid_date (periodStart ig) \<and> valid_date (periodEnd ig) \<and>
      list_all (\<lambda>c. valid_date (comment_date c)) (comments ig))"


text \<open>
  A daily calendar as the monthly aggregation needs it: the dates of its rows exist and
  are in ascending order (a date may repeat). Every table that
  \<open>initialise_daily_data\<close> builds is one (\<open>initialise_daily_data_calendar\<close>), also after
  \<open>calculate_daily_sums\<close> (\<open>calculate_daily_sums_calendar\<close>).
\<close>

definition daily_calendar :: "daily_row list \<Rightarrow> bool" where
  "daily_calendar df =
     (list_all (\<lambda>r. valid_date (date r)) df \<and> sorted (map (\<lambda>r. toordinal (date r)) df))"


text \<open>The number of days of a year, and the rows that the builder makes for one date.\<close>

definition days_in_year :: "int \<Rightarrow> int" where
  "days_in_year y = (if is_leap y then 366 else 365)"

definition day_rows :: "int \<Rightarrow> comment list \<Rightarrow> datetime \<Rightarrow> daily_row list" where
  "day_rows p cs d =
     map (\<lambda>n. \<lparr>date = d, post_day = (if day d = p then 1 else 0), num_comments = n,
                total_activities = None\<rparr>)
       (case filter (\<lambda>c. comment_date c = d) cs of
          [] \<Rightarrow> [0]
        | ms \<Rightarrow> map comment_count ms)"

subsection \<open>Example records\<close>

text \<open>
  Three days around 5 April 2021 with the two comments of that day from the sample record
  of the module's \<^verbatim>\<open>__main__\<close> block (\<^verbatim>\<open>["5/4/21", "Lady Gaga", 6]\<close>,
  \<^verbatim>\<open>["5/4/21", "Snoop Dog", 2]\<close>).
\<close>

definition ig_dup :: instagram_data where
  "ig_dup =
     \<lparr>periodStart = Datetime 2021 4 4, periodEnd = Datetime 2021 4 6, monthlyPostingDay = 5,
      comments =
        [\<lparr>comment_date = Datetime 2021 4 5, comment_user = ''Lady Gaga'', comment_count = 6\<rparr>,
         \<lparr>comment_date = Datetime 2021 4 5, comment_user = ''Snoop Dog'', comment_count = 2\<rparr>]\<rparr>"

text \<open>
  The end of February 2021 with posting day 31, one comment in the period and one
  after it.
\<close>

definition ig_feb :: instagram_data where
  "ig_feb =
     \<lparr>periodStart = Datetime 2021 2 27, periodEnd = Datetime 2021 3 1, monthlyPostingDay = 31,
      comments =
        [\<lparr>comment_date = Datetime 2021 2 28, comment_user = ''X'', comment_count = 5\<rparr>,
         \<lparr>comment_date = Datetime 2021 3 2, comment_user = ''Y'', comment_count = 7\<rparr>]\<rparr>"

subsection \<open>Date strings, as the specification describes them\<close>

text \<open>
  The texts of a date in the pattern day/month/two-digit year: the day as its digits,
  below 10 also with a leading zero or a leading blank; the month as its digits, below
  10 also with a leading zero; the year as exactly two digits.
\<close>

definition digit_char :: "int \<Rightarrow> char" where
  "digit_char n = ''0123456789'' ! nat n"

definition two_digits :: "int \<Rightarrow> string" where
  "two_digits n = [digit_char (n div 10), digit_char (n mod 10)]"

definition day_texts :: "int \<Rightarrow> string list" where
  "day_texts d =
     (if d < 10 then [[digit_char d], [CHR ''0'', digit_char d], [CHR '' '', digit_char d]]
      else [two_digits d])"

definition month_texts :: "int \<Rightarrow> string list" where
  "month_texts m =
     (if m < 10 then [[digit_char m], [CHR ''0'', digit_char m]] else [two_digits m])"

definition date_texts :: "int \<Rightarrow> int \<Rightarrow> int \<Rightarrow> string list" where
  "date_texts d m yy = [D @ ''/'' @ M @ ''/'' @ two_digits yy. D \<leftarrow> day_texts d, M \<leftarrow> month_texts m]"

text \<open>The century rule: 00 to 68 are the years 2000 to 2068, 69 to 99 the years 1969 to 1999.\<close>

definition expand_year :: "int \<Rightarrow> int" where
  "expand_year yy = (if yy \<le> 68 then yy + 2000 else yy + 1900)"

text \<open>
  \<open>date_text s dt\<close>: the string \<open>s\<close> is a text of the date \<open>dt\<close>, a date that exists and
  whose year is the expansion of its last two digits.
\<close>

definition date_text :: "string \<Rightarrow> datetime \<Rightarrow> bool" where
  "date_text s dt =
     (valid_date dt \<and> year dt = expand_year (year dt mod 100) \<and>
      s \<in> set (date_texts (day dt) (month dt) (year dt mod 100)))"

subsection \<open>The two forms of a comment\<close>








subsection \<open>Example raw records\<close>

text \<open>The raw record that is validated to \<open>ig_dup\<close>.\<close>

definition raw_dup :: json where
  "raw_dup =
     JObj [(''periodStart'', JStr ''04/04/21''), (''periodEnd'', JStr ''06/04/21''),
           (''monthlyPostingDay'', JInt 5),
           (''comments'', JList [JList [JStr ''5/4/21'', JStr ''Lady Gaga'', JInt 6],
                                 JList [JStr ''5/4/21'', JStr ''Snoop Dog'', JInt 2]])]"


section \<open>The calendar\<close>

lemma div_step: "0 < k \<Longrightarrow> (y::int) div k = (y - 1) div k + (if y mod k = 0 then 1 else 0)"
proof -
  assume k: "0 < k"
  have m: "0 \<le> y mod k" "y mod k < k" using k by simp_all
  have y: "y = k * (y div k) + y mod k" by simp
  show ?thesis
  proof (cases "y mod k = 0")
    case True
    have "y - 1 = k * (y div k - 1) + (k - 1)" using y True by (simp add: algebra_simps)
    from int_div_pos_eq[OF this] have "(y - 1) div k = y div k - 1" using k by simp
    then show ?thesis using True by simp
  next
    case False
    have "y - 1 = k * (y div k) + (y mod k - 1)" using y by simp
    from int_div_pos_eq[OF this] have "(y - 1) div k = y div k" using m False by simp
    then show ?thesis using False by simp
  qed
qed

lemma dby_diff:
  "days_before_year (y + 1) - days_before_year y =
     365 + (if y mod 4 = 0 then 1 else 0) - (if y mod 100 = 0 then 1 else 0) + (if y mod 400 = 0 then 1 else 0)"
  unfolding days_before_year_def Let_def
  by (simp only: add_diff_cancel_right' div_step[of 4 y] div_step[of 100 y] div_step[of 400 y] zero_less_numeral) (simp add: algebra_simps)

lemma mod_100_4: "(y::int) mod 100 = 0 \<Longrightarrow> y mod 4 = 0"
  using mod_mod_cancel[of 4 100 y] by simp

lemma mod_400_100: "(y::int) mod 400 = 0 \<Longrightarrow> y mod 100 = 0"
  using mod_mod_cancel[of 100 400 y] by simp

lemma dby_step: "days_before_year (y + 1) = days_before_year y + days_in_year y"
proof -
  define p4 where "p4 \<longleftrightarrow> y mod 4 = 0"
  define p100 where "p100 \<longleftrightarrow> y mod 100 = 0"
  define p400 where "p400 \<longleftrightarrow> y mod 400 = 0"
  have imp: "p400 \<longrightarrow> p100" "p100 \<longrightarrow> p4"
    unfolding p4_def p100_def p400_def using mod_100_4[of y] mod_400_100[of y] by blast+
  have "days_before_year (y + 1) - days_before_year y =
      365 + (if p4 then 1 else 0) - (if p100 then 1 else 0) + (if p400 then 1 else 0)"
    by (simp only: dby_diff p4_def p100_def p400_def)
  moreover have "days_in_year y = (if p4 \<and> (\<not> p100 \<or> p400) then 366 else 365)"
    by (simp only: days_in_year_def is_leap_def p4_def p100_def p400_def)
  ultimately show ?thesis using imp by (cases p4; cases p100; cases p400) simp_all
qed

lemma days_in_year_pos: "0 < days_in_year y"
  by (simp add: days_in_year_def)

lemma dby_mono: "y1 \<le> y2 \<Longrightarrow> days_before_year y1 \<le> days_before_year y2"
proof (induction y2 rule: int_ge_induct)
  case base
  show ?case by simp
next
  case (step i)
  then show ?case using dby_step[of i] days_in_year_pos[of i] by simp
qed

lemma month_cases:
  "1 \<le> m \<Longrightarrow> m \<le> (12::int) \<Longrightarrow>
   m = 1 \<or> m = 2 \<or> m = 3 \<or> m = 4 \<or> m = 5 \<or> m = 6 \<or> m = 7 \<or> m = 8 \<or> m = 9 \<or> m = 10 \<or> m = 11 \<or> m = 12"
  by arith

lemma dbm_step:
  assumes "1 \<le> m" "m \<le> 11"
  shows "days_before_month y (m + 1) = days_before_month y m + days_in_month y m"
proof -
  from assms have "m = 1 \<or> m = 2 \<or> m = 3 \<or> m = 4 \<or> m = 5 \<or> m = 6 \<or> m = 7 \<or> m = 8 \<or> m = 9 \<or> m = 10 \<or> m = 11"
    by arith
  then show ?thesis
    by (elim disjE) (simp_all add: days_before_month_def days_in_month_def)
qed

lemma dbm_last: "days_before_month y 12 + days_in_month y 12 = days_in_year y"
  by (simp add: days_before_month_def days_in_month_def days_in_year_def)

lemma dim_bounds: "28 \<le> days_in_month y m" "days_in_month y m \<le> 31"
  by (simp_all add: days_in_month_def)

lemma dbm_mono:
  assumes "1 \<le> m1" "m1 \<le> m2" "m2 \<le> 12"
  shows "days_before_month y m1 \<le> days_before_month y m2"
  using assms(2,1,3)
proof (induction m2 rule: int_ge_induct)
  case base
  show ?case by simp
next
  case (step i)
  then show ?case using dbm_step[of i y] dim_bounds(1)[of y i] by simp
qed

lemma dbm_nonneg: "0 \<le> days_before_month y m"
  by (simp add: days_before_month_def)

lemma dbm_le:
  assumes "1 \<le> m" "m \<le> 12"
  shows "days_before_month y m + days_in_month y m \<le> days_in_year y"
proof (cases "m = 12")
  case True
  then show ?thesis using dbm_last[of y] by simp
next
  case False
  then have "days_before_month y m + days_in_month y m \<le> days_before_month y 12"
    using assms dbm_step[of m y] dbm_mono[of "m + 1" 12 y] by simp
  then show ?thesis using dbm_last[of y] dim_bounds(1)[of y 12] by simp
qed

lemma toordinal_bounds:
  assumes "valid_date d"
  shows "days_before_year (year d) < toordinal d" "toordinal d \<le> days_before_year (year d + 1)"
  using assms dbm_nonneg[of "year d" "month d"] dbm_le[of "month d" "year d"] dby_step[of "year d"]
  by (simp_all add: valid_date_def toordinal_def)

lemma toordinal_year_less:
  assumes "valid_date a" "valid_date b" "year a < year b"
  shows "toordinal a < toordinal b"
  using toordinal_bounds(2)[OF assms(1)] toordinal_bounds(1)[OF assms(2)]
    dby_mono[of "year a + 1" "year b"] assms(3)
  by simp

lemma toordinal_month_less:
  assumes "valid_date a" "valid_date b" "year a = year b" "month a < month b"
  shows "toordinal a < toordinal b"
proof -
  have "days_before_month (year a) (month a) + day a \<le> days_before_month (year a) (month a + 1)"
    using assms dbm_step[of "month a" "year a"] by (simp add: valid_date_def)
  also have "\<dots> \<le> days_before_month (year a) (month b)"
    using assms by (intro dbm_mono) (simp_all add: valid_date_def)
  finally show ?thesis using assms by (simp add: toordinal_def valid_date_def)
qed

lemma toordinal_inj:
  assumes "valid_date a" "valid_date b" "toordinal a = toordinal b"
  shows "a = b"
proof -
  have y: "year a = year b"
    using toordinal_year_less[OF assms(1,2)] toordinal_year_less[OF assms(2,1)] assms(3)
    by (cases "year a < year b"; cases "year b < year a") simp_all
  have m: "month a = month b"
    using toordinal_month_less[OF assms(1,2)] toordinal_month_less[OF assms(2,1)] assms(3) y
    by (cases "month a < month b"; cases "month b < month a") simp_all
  have "day a = day b" using assms(3) y m by (simp add: toordinal_def)
  with y m show ?thesis by (simp add: datetime.expand)
qed

lemma valid_next_day: "valid_date d \<Longrightarrow> valid_date (next_day d)"
  using dim_bounds(1)[of "year d" "month d + 1"] dim_bounds(1)[of "year d + 1" 1]
  by (simp add: valid_date_def next_day_def)

lemma toordinal_next_day:
  assumes "valid_date d"
  shows "toordinal (next_day d) = toordinal d + 1"
proof (cases "day d < days_in_month (year d) (month d)")
  case True
  then show ?thesis by (simp add: next_day_def toordinal_def)
next
  case False
  then have d: "day d = days_in_month (year d) (month d)"
    using assms by (simp add: valid_date_def)
  show ?thesis
  proof (cases "month d < 12")
    case True
    then show ?thesis using False d assms dbm_step[of "month d" "year d"]
      by (simp add: next_day_def toordinal_def valid_date_def)
  next
    case m: False
    then have "month d = 12" using assms by (simp add: valid_date_def)
    then show ?thesis using False d dby_step[of "year d"] dbm_last[of "year d"]
      by (simp add: next_day_def toordinal_def days_before_month_def)
  qed
qed

lemma length_dates_from: "length (dates_from d n) = n"
  by (induction n arbitrary: d) simp_all

lemma valid_dates_from: "valid_date d \<Longrightarrow> x \<in> set (dates_from d n) \<Longrightarrow> valid_date x"
proof (induction n arbitrary: d)
  case 0
  then show ?case by simp
next
  case (Suc n)
  from Suc.prems(2) have "x = d \<or> x \<in> set (dates_from (next_day d) n)" by simp
  then show ?case
  proof
    assume "x = d"
    with Suc.prems(1) show ?thesis by simp
  next
    assume "x \<in> set (dates_from (next_day d) n)"
    with Suc.IH[OF valid_next_day[OF Suc.prems(1)]] show ?thesis .
  qed
qed

lemma toordinal_dates_from:
  "valid_date d \<Longrightarrow> map toordinal (dates_from d n) = map (\<lambda>k. toordinal d + int k) [0..<n]"
proof (induction n arbitrary: d)
  case 0
  show ?case by simp
next
  case (Suc n)
  have "map (\<lambda>k. toordinal d + int k) [0..<Suc n] =
        toordinal d # map (\<lambda>k. toordinal (next_day d) + int k) [0..<n]"
    using Suc.prems by (simp add: upt_conv_Cons map_Suc_upt[symmetric] toordinal_next_day del: upt_Suc)
  then show ?case using Suc by (simp add: valid_next_day)
qed



lemma sorted_dates_from:
  assumes "valid_date d"
  shows "sorted_wrt (<) (map toordinal (dates_from d n))"
  by (simp add: toordinal_dates_from[OF assms] sorted_wrt_map sorted_wrt_iff_nth_less)



section \<open>The daily calendar builder\<close>

lemma filter_comments_df:
  "filter (\<lambda>c. fst c = d) (map (\<lambda>c. (comment_date c, comment_count c)) cs) =
   map (\<lambda>c. (comment_date c, comment_count c)) (filter (\<lambda>c. comment_date c = d) cs)"
  by (simp add: filter_map comp_def)

lemma join_one_row:
  "map (\<lambda>(r, cnt). r\<lparr>num_comments := num_comments r + fill_null 0 cnt\<rparr>)
     (case filter (\<lambda>c. fst c = d) (map (\<lambda>c. (comment_date c, comment_count c)) cs) of
        [] \<Rightarrow> [(\<lparr>date = d, post_day = q, num_comments = 0, total_activities = None\<rparr>, None)]
      | ms \<Rightarrow> map (\<lambda>c. (\<lparr>date = d, post_day = q, num_comments = 0, total_activities = None\<rparr>, Some (snd c))) ms)
   = map (\<lambda>n. \<lparr>date = d, post_day = q, num_comments = n, total_activities = None\<rparr>)
       (case filter (\<lambda>c. comment_date c = d) cs of [] \<Rightarrow> [0] | ms \<Rightarrow> map comment_count ms)"
  unfolding filter_comments_df
  by (cases "filter (\<lambda>c. comment_date c = d) cs") (simp_all add: fill_null_def comp_def)

lemma initialise_daily_data_day_rows:
  "initialise_daily_data ig =
     concat (map (day_rows (monthlyPostingDay ig) (comments ig))
       (date_range (periodStart ig) (periodEnd ig)))"
  unfolding initialise_daily_data_def join_left_def Let_def day_rows_def dt_day_def
  by (simp add: map_concat comp_def join_one_row)

lemma date_day_rows: "r \<in> set (day_rows p cs d) \<Longrightarrow> date r = d"
  by (auto simp: day_rows_def)

lemma map_date_day_rows: "map date (day_rows p cs d) = replicate (length (day_rows p cs d)) d"
  by (simp add: day_rows_def comp_def map_replicate_const)

lemma day_rows_nonempty: "day_rows p cs d \<noteq> []"
  by (simp add: day_rows_def split: list.splits)




lemma valid_date_range: "valid_date s \<Longrightarrow> d \<in> set (date_range s e) \<Longrightarrow> valid_date d"
  unfolding date_range_def by (rule valid_dates_from)

lemma date_initialise_daily_data:
  "r \<in> set (initialise_daily_data ig) \<Longrightarrow> date r \<in> set (date_range (periodStart ig) (periodEnd ig))"
  by (auto simp: initialise_daily_data_day_rows dest: date_day_rows)


section \<open>Monthly windows\<close>

lemma windows_eq_Nil: "windows rs = [] \<longleftrightarrow> rs = []"
  by (cases rs) (auto split: list.splits prod.splits)

lemma hd_windows: "rs \<noteq> [] \<Longrightarrow> fst (hd (windows rs)) = truncate_1mo (date (hd rs))"
  by (cases rs) (auto split: list.splits prod.splits)



lemma windows_group:
  "(k, g) \<in> set (windows rs) \<Longrightarrow> g \<noteq> [] \<and> (\<forall>r\<in>set g. truncate_1mo (date r) = k)"
proof (induction rs arbitrary: k g)
  case Nil
  then show ?case by simp
next
  case (Cons r rs)
  show ?case
  proof (cases "windows rs")
    case Nil
    then show ?thesis using Cons.prems by simp
  next
    case c: (Cons w ws)
    obtain k' g' where w: "w = (k', g')" by (cases w)
    have h: "g' \<noteq> [] \<and> (\<forall>r\<in>set g'. truncate_1mo (date r) = k')"
      using Cons.IH[of k' g'] c w by simp
    have t: "(k, g) \<in> set ws \<Longrightarrow> ?thesis" using Cons.IH[of k g] c by simp
    show ?thesis using Cons.prems c w h t by (auto split: if_splits)
  qed
qed

lemma set_keys_windows: "fst ` set (windows rs) = (\<lambda>r. truncate_1mo (date r)) ` set rs"
proof (induction rs)
  case Nil
  show ?case by simp
next
  case (Cons r rs)
  show ?case
  proof (cases "windows rs")
    case Nil
    then have "rs = []" by (simp add: windows_eq_Nil)
    then show ?thesis by simp
  next
    case c: (Cons w ws)
    obtain k' g' where w: "w = (k', g')" by (cases w)
    show ?thesis using Cons.IH c w by (auto split: if_splits)
  qed
qed

lemma valid_truncate_1mo: "valid_date d \<Longrightarrow> valid_date (truncate_1mo d)"
  using dim_bounds(1)[of "year d" "month d"] by (simp add: valid_date_def truncate_1mo_def)

lemma truncate_1mo_mono:
  assumes "valid_date a" "valid_date b" "toordinal a \<le> toordinal b"
  shows "toordinal (truncate_1mo a) \<le> toordinal (truncate_1mo b)"
proof -
  have ya: "\<not> year b < year a" using toordinal_year_less[OF assms(2,1)] assms(3) by auto
  have va: "valid_date (truncate_1mo a)" and vb: "valid_date (truncate_1mo b)"
    using assms by (simp_all add: valid_truncate_1mo)
  show ?thesis
  proof (cases "year a < year b")
    case True
    then show ?thesis using toordinal_year_less[OF va vb] by (simp add: truncate_1mo_def)
  next
    case False
    with ya have y: "year a = year b" by simp
    have ma: "\<not> month b < month a" using toordinal_month_less[OF assms(2,1)] assms(3) y by auto
    show ?thesis
    proof (cases "month a < month b")
      case True
      then show ?thesis using toordinal_month_less[OF va vb] y by (simp add: truncate_1mo_def)
    next
      case False
      with ma have "month a = month b" by simp
      with y show ?thesis by (simp add: truncate_1mo_def)
    qed
  qed
qed

lemma sorted_keys_windows:
  assumes "\<forall>r\<in>set rs. valid_date (date r)" "sorted (map (\<lambda>r. toordinal (date r)) rs)"
  shows "sorted_wrt (<) (map (\<lambda>w. toordinal (fst w)) (windows rs))"
  using assms
proof (induction rs)
  case Nil
  show ?case by simp
next
  case (Cons r rs)
  have IH: "sorted_wrt (<) (map (\<lambda>w. toordinal (fst w)) (windows rs))"
    using Cons by simp
  show ?case
  proof (cases "windows rs")
    case Nil
    then show ?thesis by simp
  next
    case c: (Cons w ws)
    then have ne: "rs \<noteq> []" using windows_eq_Nil[of rs] by auto
    obtain k' g' where w: "w = (k', g')" by (cases w)
    have k': "k' = truncate_1mo (date (hd rs))" using hd_windows[OF ne] c w by simp
    have hd: "hd rs \<in> set rs" using ne by simp
    show ?thesis
    proof (cases "k' = truncate_1mo (date r)")
      case True
      then show ?thesis using IH c w by simp
    next
      case False
      have vr: "valid_date (date r)" and vh: "valid_date (date (hd rs))"
        using Cons.prems(1) hd by simp_all
      have "toordinal (date r) \<le> toordinal (date (hd rs))"
        using Cons.prems(2) hd by simp
      then have le: "toordinal (truncate_1mo (date r)) \<le> toordinal k'"
        unfolding k' by (rule truncate_1mo_mono[OF vr vh])
      have "toordinal (truncate_1mo (date r)) \<noteq> toordinal k'"
        using toordinal_inj[OF valid_truncate_1mo[OF vr] valid_truncate_1mo[OF vh]] False k'
        by auto
      with le have lt: "toordinal (truncate_1mo (date r)) < toordinal k'" by simp
      have "windows (r # rs) = (truncate_1mo (date r), [r]) # (k', g') # ws"
        using c w False by simp
      then show ?thesis using IH c w lt by auto
    qed
  qed
qed


lemma sorted_concat_blocks:
  assumes "sorted (map f ds)" "\<And>d r. d \<in> set ds \<Longrightarrow> r \<in> set (g d) \<Longrightarrow> h r = f d"
  shows "sorted (map h (concat (map g ds)) :: int list)"
  using assms
proof (induction ds)
  case Nil
  show ?case by simp
next
  case (Cons d ds)
  have a: "sorted (map h (g d))"
    using Cons.prems(2)[of d] by (simp add: sorted_wrt_iff_nth_less)
  have b: "sorted (map h (concat (map g ds)))"
    using Cons by simp
  have c: "h x \<le> h y" if "x \<in> set (g d)" "d' \<in> set ds" "y \<in> set (g d')" for x y d'
    using Cons.prems(1) Cons.prems(2)[of d x] Cons.prems(2)[of d' y] that by auto
  show ?case using a b c by (auto simp: sorted_append)
qed

lemma initialise_daily_data_calendar:
  assumes "valid_date (periodStart ig)"
  shows "daily_calendar (initialise_daily_data ig)"
proof -
  have "sorted (map toordinal (date_range (periodStart ig) (periodEnd ig)))"
    using sorted_dates_from[OF assms] unfolding date_range_def
    by (rule strict_sorted_imp_sorted)
  then have "sorted (map (\<lambda>r. toordinal (date r)) (initialise_daily_data ig))"
    unfolding initialise_daily_data_day_rows
    by (rule sorted_concat_blocks) (simp add: date_day_rows)
  moreover have "valid_date (date r)" if "r \<in> set (initialise_daily_data ig)" for r
    using valid_date_range[OF assms date_initialise_daily_data[OF that]] .
  ultimately show ?thesis by (simp add: daily_calendar_def list_all_iff)
qed

lemma calculate_daily_sums_calendar:
  "daily_calendar (daily_data_df (calculate_daily_sums a)) = daily_calendar (daily_data_df a)"
  by (simp add: daily_calendar_def calculate_daily_sums_def list_all_iff comp_def)

lemma calculate_monthly_aggregates_Inr:
  assumes "daily_calendar (daily_data_df a)"
  shows "calculate_monthly_aggregates a =
    Inr (map (\<lambda>(k, g). \<lparr>month_date = k, num_posts = sum_list (map post_day g),
                        month_num_comments = sum_list (map num_comments g)\<rparr>) (windows (daily_data_df a)),
         a\<lparr>monthly_data_df := Some (map (\<lambda>(k, g). \<lparr>month_date = k, num_posts = sum_list (map post_day g),
                        month_num_comments = sum_list (map num_comments g)\<rparr>) (windows (daily_data_df a)))\<rparr>)"
  using assms by (simp add: calculate_monthly_aggregates_def group_by_dynamic_def daily_calendar_def Let_def)


section \<open>The example records, evaluated\<close>

lemma date_range_dup:
  "date_range (Datetime 2021 4 4) (Datetime 2021 4 6) =
     [Datetime 2021 4 4, Datetime 2021 4 5, Datetime 2021 4 6]"
  by (simp add: date_range_def toordinal_def days_before_year_def days_before_month_def
      is_leap_def next_day_def days_in_month_def eval_nat_numeral)

lemma initialise_daily_data_dup:
  "initialise_daily_data ig_dup =
     [\<lparr>date = Datetime 2021 4 4, post_day = 0, num_comments = 0, total_activities = None\<rparr>,
      \<lparr>date = Datetime 2021 4 5, post_day = 1, num_comments = 6, total_activities = None\<rparr>,
      \<lparr>date = Datetime 2021 4 5, post_day = 1, num_comments = 2, total_activities = None\<rparr>,
      \<lparr>date = Datetime 2021 4 6, post_day = 0, num_comments = 0, total_activities = None\<rparr>]"
  by (simp add: initialise_daily_data_day_rows ig_dup_def date_range_dup day_rows_def)

lemma date_range_feb:
  "date_range (Datetime 2021 2 27) (Datetime 2021 3 1) =
     [Datetime 2021 2 27, Datetime 2021 2 28, Datetime 2021 3 1]"
  by (simp add: date_range_def toordinal_def days_before_year_def days_before_month_def
      is_leap_def next_day_def days_in_month_def eval_nat_numeral)

lemma initialise_daily_data_feb:
  "initialise_daily_data ig_feb =
     [\<lparr>date = Datetime 2021 2 27, post_day = 0, num_comments = 0, total_activities = None\<rparr>,
      \<lparr>date = Datetime 2021 2 28, post_day = 0, num_comments = 5, total_activities = None\<rparr>,
      \<lparr>date = Datetime 2021 3 1, post_day = 0, num_comments = 0, total_activities = None\<rparr>]"
  by (simp add: initialise_daily_data_day_rows ig_feb_def date_range_feb day_rows_def)

lemma valid_dates_feb: "valid_dates ig_feb"
  by (simp add: valid_dates_def ig_feb_def valid_date_def days_in_month_def is_leap_def)

lemma valid_dates_dup: "valid_dates ig_dup"
  by (simp add: valid_dates_def ig_dup_def valid_date_def days_in_month_def is_leap_def)


section \<open>Date strings\<close>

lemma day_cases:
  "1 \<le> d \<Longrightarrow> d \<le> (31::int) \<Longrightarrow>
   d = 1 \<or> d = 2 \<or> d = 3 \<or> d = 4 \<or> d = 5 \<or> d = 6 \<or> d = 7 \<or> d = 8 \<or> d = 9 \<or> d = 10 \<or>
   d = 11 \<or> d = 12 \<or> d = 13 \<or> d = 14 \<or> d = 15 \<or> d = 16 \<or> d = 17 \<or> d = 18 \<or> d = 19 \<or> d = 20 \<or>
   d = 21 \<or> d = 22 \<or> d = 23 \<or> d = 24 \<or> d = 25 \<or> d = 26 \<or> d = 27 \<or> d = 28 \<or> d = 29 \<or> d = 30 \<or> d = 31"
  by arith

lemma match_d_complete:
  assumes "1 \<le> d" "d \<le> 31" "g \<in> set (day_texts d)"
  shows "match_d (g @ CHR ''/'' # t) = [(g, t)] \<and> py_int g = d"
proof -
  from day_cases[OF assms(1,2)] show ?thesis
    using assms(3)
    by (elim disjE)
       (auto simp: day_texts_def two_digits_def digit_char_def match_d_def rgroup_def re_d_def
          py_int_def digit_value_def)
qed

lemma match_m_complete:
  assumes "1 \<le> m" "m \<le> 12" "g \<in> set (month_texts m)"
  shows "match_m (g @ CHR ''/'' # t) = [(g, t)] \<and> py_int g = m"
proof -
  from assms(1,2) have "m = 1 \<or> m = 2 \<or> m = 3 \<or> m = 4 \<or> m = 5 \<or> m = 6 \<or> m = 7 \<or> m = 8 \<or>
      m = 9 \<or> m = 10 \<or> m = 11 \<or> m = 12"
    by arith
  then show ?thesis
    using assms(3)
    by (elim disjE)
       (auto simp: month_texts_def two_digits_def digit_char_def match_m_def rgroup_def re_m_def
          py_int_def digit_value_def)
qed

lemma digit_cases:
  "0 \<le> k \<Longrightarrow> k \<le> (9::int) \<Longrightarrow> k \<in> {0, 1, 2, 3, 4, 5, 6, 7, 8, 9}"
  by (simp only: insert_iff empty_iff) arith

lemma digit_char_digit:
  assumes "0 \<le> n" "n \<le> 9"
  shows "digit_char n \<in> set ''0123456789'' \<and> digit_value (digit_char n) = n"
  using digit_cases[OF assms]
  by (simp only: insert_iff empty_iff, elim disjE) (simp_all add: digit_char_def digit_value_def)

lemma digit_char_value:
  assumes "c \<in> set ''0123456789''"
  shows "digit_char (digit_value c) = c \<and> 0 \<le> digit_value c \<and> digit_value c \<le> 9"
  using assms by (auto simp: digit_char_def digit_value_def)

lemma rmatch_two_classes:
  "a \<in> set cs \<Longrightarrow> b \<in> set ds \<Longrightarrow> rmatch (Seq (Class cs) (Class ds)) (a # b # t) = [t]"
  by simp

lemma digit_not_blank: "c \<in> set ''0123456789'' \<Longrightarrow> c \<noteq> CHR '' ''"
  by auto

lemma py_int_two:
  "a \<noteq> CHR '' '' \<Longrightarrow> py_int [a, b] = 10 * digit_value a + digit_value b"
  by (simp add: py_int_def)

lemma two_digits_value:
  assumes "a \<in> set ''0123456789''" "b \<in> set ''0123456789''"
  shows "two_digits (10 * digit_value a + digit_value b) = [a, b]"
proof -
  have a: "digit_char (digit_value a) = a" "0 \<le> digit_value a" "digit_value a \<le> 9"
    using digit_char_value[OF assms(1)] by blast+
  have b: "digit_char (digit_value b) = b" "0 \<le> digit_value b" "digit_value b \<le> 9"
    using digit_char_value[OF assms(2)] by blast+
  have "(10 * digit_value a + digit_value b) div 10 = digit_value a"
    using b(2,3) by simp
  moreover have "(10 * digit_value a + digit_value b) mod 10 = digit_value b"
    using b(2,3) by simp
  ultimately show ?thesis using a(1) b(1) by (simp add: two_digits_def)
qed

lemma match_y_complete:
  assumes "0 \<le> yy" "yy \<le> 99"
  shows "match_y (two_digits yy @ t) = [(two_digits yy, t)] \<and> py_int (two_digits yy) = yy"
proof -
  define a where "a = digit_char (yy div 10)"
  define b where "b = digit_char (yy mod 10)"
  have r: "0 \<le> yy div 10" "yy div 10 \<le> 9" "0 \<le> yy mod 10" "yy mod 10 \<le> 9"
    using assms by auto
  have a: "a \<in> set ''0123456789''" "digit_value a = yy div 10"
    using digit_char_digit[OF r(1,2)] by (simp_all only: a_def)
  have b: "b \<in> set ''0123456789''" "digit_value b = yy mod 10"
    using digit_char_digit[OF r(3,4)] by (simp_all only: b_def)
  have t: "two_digits yy = [a, b]" by (simp only: two_digits_def a_def b_def)
  have m: "rmatch re_y (a # b # t) = [t]"
    unfolding re_y_def by (rule rmatch_two_classes[OF a(1) b(1)])
  have "match_y (two_digits yy @ t) = [(two_digits yy, t)]"
    unfolding t match_y_def rgroup_def by (simp add: m del: rmatch.simps)
  moreover have "py_int (two_digits yy) = yy"
    unfolding t py_int_two[OF digit_not_blank[OF a(1)]] a(2) b(2) by simp
  ultimately show ?thesis by blast
qed

lemma rmatch_Lit: "r \<in> set (rmatch (Lit c) s) \<longleftrightarrow> s = c # r"
  by (cases s) auto

lemma rmatch_Class: "r \<in> set (rmatch (Class cs) s) \<longleftrightarrow> (\<exists>x. x \<in> set cs \<and> s = x # r)"
  by (cases s) auto

lemma rmatch_Seq:
  "r \<in> set (rmatch (Seq a b) s) \<longleftrightarrow> (\<exists>r1. r1 \<in> set (rmatch a s) \<and> r \<in> set (rmatch b r1))"
  by auto

lemma rmatch_Alt: "r \<in> set (rmatch (Alt a b) s) \<longleftrightarrow> r \<in> set (rmatch a s) \<or> r \<in> set (rmatch b s)"
  by simp

lemmas rmatch_mem = rmatch_Lit rmatch_Class rmatch_Seq rmatch_Alt

lemma rgroup_mem:
  "(g, t) \<in> set (rgroup re s) \<longleftrightarrow> t \<in> set (rmatch re s) \<and> g = take (length s - length t) s"
  by (auto simp: rgroup_def)

lemma match_y_sound:
  assumes "(g, t) \<in> set (match_y s)"
  shows "s = g @ t \<and> 0 \<le> py_int g \<and> py_int g \<le> 99 \<and> g = two_digits (py_int g)"
proof -
  from assms have "t \<in> set (rmatch re_y s)" and g: "g = take (length s - length t) s"
    by (simp_all add: match_y_def rgroup_mem)
  then obtain a b where s: "s = a # b # t"
    and ab: "a \<in> set ''0123456789''" "b \<in> set ''0123456789''"
    unfolding re_y_def rmatch_mem by blast
  have g': "g = [a, b]" using g s by simp
  have p: "py_int g = 10 * digit_value a + digit_value b"
    unfolding g' by (rule py_int_two[OF digit_not_blank[OF ab(1)]])
  have "0 \<le> digit_value a" "digit_value a \<le> 9" "0 \<le> digit_value b" "digit_value b \<le> 9"
    using digit_char_value[OF ab(1)] digit_char_value[OF ab(2)] by blast+
  then have "0 \<le> py_int g" "py_int g \<le> 99" unfolding p by simp_all
  moreover have "g = two_digits (py_int g)"
    unfolding p two_digits_value[OF ab] by (rule g')
  moreover have "s = g @ t" using s g' by simp
  ultimately show ?thesis by blast
qed

lemmas text_eval = day_texts_def month_texts_def two_digits_def digit_char_def py_int_def digit_value_def

lemma day_text_3x:
  assumes "b \<in> set ''01''" "g = [CHR ''3'', b]"
  shows "1 \<le> py_int g \<and> py_int g \<le> 31 \<and> g \<in> set (day_texts (py_int g))"
proof -
  from assms(1) have "b = CHR ''0'' \<or> b = CHR ''1''" by simp
  then show ?thesis unfolding assms(2)
    by (elim disjE) (simp_all add: text_eval)
qed

lemma nonzero_digit_cases:
  "c \<in> set ''123456789'' \<Longrightarrow>
   c = CHR ''1'' \<or> c = CHR ''2'' \<or> c = CHR ''3'' \<or> c = CHR ''4'' \<or> c = CHR ''5'' \<or>
   c = CHR ''6'' \<or> c = CHR ''7'' \<or> c = CHR ''8'' \<or> c = CHR ''9''"
  by simp

lemma day_text_12x:
  assumes "a \<in> set ''12''" "b \<in> set ''0123456789''" "g = [a, b]"
  shows "1 \<le> py_int g \<and> py_int g \<le> 31 \<and> g \<in> set (day_texts (py_int g))"
proof -
  have a: "a \<in> set ''0123456789''" "digit_value a = 1 \<or> digit_value a = 2"
    using assms(1) by (auto simp: digit_value_def)
  have b: "0 \<le> digit_value b" "digit_value b \<le> 9"
    using digit_char_value[OF assms(2)] by blast+
  have p: "py_int g = 10 * digit_value a + digit_value b"
    unfolding assms(3) by (rule py_int_two[OF digit_not_blank[OF a(1)]])
  have r: "10 \<le> py_int g" "py_int g \<le> 29" using a(2) b unfolding p by auto
  have "two_digits (py_int g) = g"
    unfolding p unfolding assms(3) by (rule two_digits_value[OF a(1) assms(2)])
  then show ?thesis using r by (simp add: day_texts_def)
qed

lemma day_text_0x:
  assumes "b \<in> set ''123456789''" "g = [CHR ''0'', b]"
  shows "1 \<le> py_int g \<and> py_int g \<le> 31 \<and> g \<in> set (day_texts (py_int g))"
  using nonzero_digit_cases[OF assms(1)] unfolding assms(2)
  by (elim disjE) (simp_all add: text_eval)

lemma day_text_x:
  assumes "a \<in> set ''123456789''" "g = [a]"
  shows "1 \<le> py_int g \<and> py_int g \<le> 31 \<and> g \<in> set (day_texts (py_int g))"
  using nonzero_digit_cases[OF assms(1)] unfolding assms(2)
  by (elim disjE) (simp_all add: text_eval)

lemma day_text_blank:
  assumes "b \<in> set ''123456789''" "g = [CHR '' '', b]"
  shows "1 \<le> py_int g \<and> py_int g \<le> 31 \<and> g \<in> set (day_texts (py_int g))"
  using nonzero_digit_cases[OF assms(1)] unfolding assms(2)
  by (elim disjE) (simp_all add: text_eval)

lemma group_then_mem:
  "(g, t) \<in> set [(g, r2). (g, r1) \<leftarrow> xs, r2 \<leftarrow> f r1] \<longleftrightarrow>
     (\<exists>r1. (g, r1) \<in> set xs \<and> t \<in> set (f r1))"
  by (induction xs) auto

lemma match_d_mem:
  "(g, t) \<in> set (match_d s) \<longleftrightarrow>
     CHR ''/'' # t \<in> set (rmatch re_d s) \<and> g = take (length s - Suc (length t)) s"
  unfolding match_d_def group_then_mem rgroup_mem rmatch_Lit by auto

lemma match_m_mem:
  "(g, t) \<in> set (match_m s) \<longleftrightarrow>
     CHR ''/'' # t \<in> set (rmatch re_m s) \<and> g = take (length s - Suc (length t)) s"
  unfolding match_m_def group_then_mem rgroup_mem rmatch_Lit by auto

lemma match_d_sound:
  assumes "(g, t) \<in> set (match_d s)"
  shows "s = g @ CHR ''/'' # t \<and> 1 \<le> py_int g \<and> py_int g \<le> 31 \<and> g \<in> set (day_texts (py_int g))"
proof -
  from assms have r: "CHR ''/'' # t \<in> set (rmatch re_d s)"
    and g: "g = take (length s - Suc (length t)) s"
    by (simp_all add: match_d_mem)
  from r consider
      b where "b \<in> set ''01''" "s = CHR ''3'' # b # CHR ''/'' # t"
    | a b where "a \<in> set ''12''" "b \<in> set ''0123456789''" "s = a # b # CHR ''/'' # t"
    | b where "b \<in> set ''123456789''" "s = CHR ''0'' # b # CHR ''/'' # t"
    | a where "a \<in> set ''123456789''" "s = a # CHR ''/'' # t"
    | b where "b \<in> set ''123456789''" "s = CHR '' '' # b # CHR ''/'' # t"
    unfolding re_d_def rmatch_mem by blast
  then show ?thesis
  proof cases
    case 1
    then have "g = [CHR ''3'', b]" using g by simp
    with day_text_3x[OF 1(1) this] 1(2) show ?thesis by simp
  next
    case 2
    then have "g = [a, b]" using g by simp
    with day_text_12x[OF 2(1,2) this] 2(3) show ?thesis by simp
  next
    case 3
    then have "g = [CHR ''0'', b]" using g by simp
    with day_text_0x[OF 3(1) this] 3(2) show ?thesis by simp
  next
    case 4
    then have "g = [a]" using g by simp
    with day_text_x[OF 4(1) this] 4(2) show ?thesis by simp
  next
    case 5
    then have "g = [CHR '' '', b]" using g by simp
    with day_text_blank[OF 5(1) this] 5(2) show ?thesis by simp
  qed
qed

lemma month_text_1x:
  assumes "b \<in> set ''012''" "g = [CHR ''1'', b]"
  shows "1 \<le> py_int g \<and> py_int g \<le> 12 \<and> g \<in> set (month_texts (py_int g))"
proof -
  from assms(1) have "b = CHR ''0'' \<or> b = CHR ''1'' \<or> b = CHR ''2''" by simp
  then show ?thesis unfolding assms(2)
    by (elim disjE) (simp_all add: text_eval)
qed

lemma month_text_0x:
  assumes "b \<in> set ''123456789''" "g = [CHR ''0'', b]"
  shows "1 \<le> py_int g \<and> py_int g \<le> 12 \<and> g \<in> set (month_texts (py_int g))"
  using nonzero_digit_cases[OF assms(1)] unfolding assms(2)
  by (elim disjE) (simp_all add: text_eval)

lemma month_text_x:
  assumes "a \<in> set ''123456789''" "g = [a]"
  shows "1 \<le> py_int g \<and> py_int g \<le> 12 \<and> g \<in> set (month_texts (py_int g))"
  using nonzero_digit_cases[OF assms(1)] unfolding assms(2)
  by (elim disjE) (simp_all add: text_eval)

lemma match_m_sound:
  assumes "(g, t) \<in> set (match_m s)"
  shows "s = g @ CHR ''/'' # t \<and> 1 \<le> py_int g \<and> py_int g \<le> 12 \<and> g \<in> set (month_texts (py_int g))"
proof -
  from assms have r: "CHR ''/'' # t \<in> set (rmatch re_m s)"
    and g: "g = take (length s - Suc (length t)) s"
    by (simp_all add: match_m_mem)
  from r consider
      b where "b \<in> set ''012''" "s = CHR ''1'' # b # CHR ''/'' # t"
    | b where "b \<in> set ''123456789''" "s = CHR ''0'' # b # CHR ''/'' # t"
    | a where "a \<in> set ''123456789''" "s = a # CHR ''/'' # t"
    unfolding re_m_def rmatch_mem by blast
  then show ?thesis
  proof cases
    case 1
    then have "g = [CHR ''1'', b]" using g by simp
    with month_text_1x[OF 1(1) this] 1(2) show ?thesis by simp
  next
    case 2
    then have "g = [CHR ''0'', b]" using g by simp
    with month_text_0x[OF 2(1) this] 2(2) show ?thesis by simp
  next
    case 3
    then have "g = [a]" using g by simp
    with month_text_x[OF 3(1) this] 3(2) show ?thesis by simp
  qed
qed

lemma in_concat_map_pairs:
  "z \<in> set (concat (map (case_prod h) xs)) \<longleftrightarrow> (\<exists>a b. (a, b) \<in> set xs \<and> z \<in> set (h a b))"
  by (induction xs) auto

lemma in_map_pairs:
  "z \<in> set (map (case_prod k) xs) \<longleftrightarrow> (\<exists>a b. (a, b) \<in> set xs \<and> z = k a b)"
  by (induction xs) auto

lemma matches_mem:
  "(d, m, y, r) \<in> set [(d, m, y, r). (d, r1) \<leftarrow> match_d s, (m, r2) \<leftarrow> match_m r1, (y, r) \<leftarrow> match_y r2]
   \<longleftrightarrow> (\<exists>r1 r2. (d, r1) \<in> set (match_d s) \<and> (m, r2) \<in> set (match_m r1) \<and> (y, r) \<in> set (match_y r2))"
  by (simp only: in_concat_map_pairs in_map_pairs) blast

lemma format_regex_match_sound:
  assumes "format_regex_match s = Some (d, m, y, r)"
  shows "\<exists>r1 r2. (d, r1) \<in> set (match_d s) \<and> (m, r2) \<in> set (match_m r1) \<and> (y, r) \<in> set (match_y r2)"
proof -
  define ms where
    "ms = [(d, m, y, r). (d, r1) \<leftarrow> match_d s, (m, r2) \<leftarrow> match_m r1, (y, r) \<leftarrow> match_y r2]"
  from assms have "(case ms of [] \<Rightarrow> None | found # _ \<Rightarrow> Some found) = Some (d, m, y, r)"
    by (simp only: format_regex_match_def ms_def)
  then have "(d, m, y, r) \<in> set ms" by (cases ms) simp_all
  then show ?thesis unfolding ms_def matches_mem .
qed

lemma format_regex_match_complete:
  assumes "1 \<le> d" "d \<le> 31" "D \<in> set (day_texts d)"
    and "1 \<le> m" "m \<le> 12" "M \<in> set (month_texts m)"
    and "0 \<le> yy" "yy \<le> 99"
  shows "format_regex_match (D @ ''/'' @ M @ ''/'' @ two_digits yy) = Some (D, M, two_digits yy, [])"
proof -
  have a: "match_d (D @ CHR ''/'' # (M @ CHR ''/'' # two_digits yy)) = [(D, M @ CHR ''/'' # two_digits yy)]"
    using match_d_complete[OF assms(1-3)] by blast
  have b: "match_m (M @ CHR ''/'' # two_digits yy) = [(M, two_digits yy)]"
    using match_m_complete[OF assms(4-6)] by blast
  have c: "match_y (two_digits yy) = [(two_digits yy, [])]"
    using match_y_complete[OF assms(7,8), of "[]"] by simp
  show ?thesis unfolding format_regex_match_def by (simp add: a b c)
qed

lemma expand_year_mod:
  assumes "0 \<le> yy" "yy \<le> 99"
  shows "expand_year yy mod 100 = yy"
proof -
  have "(yy + 2000) mod 100 = yy mod 100" using mod_mult_self2[of yy 100 20] by simp
  moreover have "(yy + 1900) mod 100 = yy mod 100" using mod_mult_self2[of yy 100 19] by simp
  moreover have "yy mod 100 = yy" using assms by simp
  ultimately show ?thesis by (simp add: expand_year_def)
qed

lemma strptime_expand_year:
  "strptime s =
     (case format_regex_match s of
        None \<Rightarrow> None
      | Some (d, m, y, rest) \<Rightarrow>
          if rest \<noteq> [] then None
          else if valid_date (Datetime (expand_year (py_int y)) (py_int m) (py_int d))
               then Some (Datetime (expand_year (py_int y)) (py_int m) (py_int d))
               else None)"
  by (simp add: strptime_def expand_year_def Let_def split: option.splits)

lemma strptime_iff: "strptime s = Some dt \<longleftrightarrow> date_text s dt"
proof
  assume a: "strptime s = Some dt"
  then obtain D M Y r where f: "format_regex_match s = Some (D, M, Y, r)"
    unfolding strptime_expand_year by (auto split: option.splits)
  from a f have r: "r = []"
    and dt: "dt = Datetime (expand_year (py_int Y)) (py_int M) (py_int D)"
    and v: "valid_date dt"
    unfolding strptime_expand_year by (auto split: if_splits)
  from format_regex_match_sound[OF f] obtain r1 r2 where
    m: "(D, r1) \<in> set (match_d s)" "(M, r2) \<in> set (match_m r1)" "(Y, r) \<in> set (match_y r2)"
    by blast
  note sd = match_d_sound[OF m(1)] and sm = match_m_sound[OF m(2)] and sy = match_y_sound[OF m(3)]
  have s: "s = D @ ''/'' @ M @ ''/'' @ Y" using sd sm sy r by simp
  have y: "year dt mod 100 = py_int Y" using sy dt expand_year_mod by simp
  have "s \<in> set (date_texts (py_int D) (py_int M) (py_int Y))"
    using sd sm sy unfolding s date_texts_def by auto
  then show "date_text s dt"
    unfolding date_text_def using v y dt by simp
next
  assume a: "date_text s dt"
  define d m yy where "d = day dt" and "m = month dt" and "yy = year dt mod 100"
  from a have v: "valid_date dt" and e: "year dt = expand_year yy"
    and s: "s \<in> set (date_texts d m yy)"
    unfolding date_text_def d_def m_def yy_def by blast+
  from s obtain D M where D: "D \<in> set (day_texts d)" and M: "M \<in> set (month_texts m)"
    and s': "s = D @ ''/'' @ M @ ''/'' @ two_digits yy"
    unfolding date_texts_def by auto
  have rd: "1 \<le> d" "d \<le> 31" and rm: "1 \<le> m" "m \<le> 12"
    using v dim_bounds(2)[of "year dt" "month dt"] unfolding valid_date_def d_def m_def by auto
  have ry: "0 \<le> yy" "yy \<le> 99" unfolding yy_def by auto
  have f: "format_regex_match s = Some (D, M, two_digits yy, [])"
    unfolding s' by (rule format_regex_match_complete[OF rd D rm M ry])
  have p: "py_int D = d" "py_int M = m" "py_int (two_digits yy) = yy"
    using match_d_complete[OF rd D] match_m_complete[OF rm M] match_y_complete[OF ry] by blast+
  have dt: "dt = Datetime (expand_year yy) m d"
    using e unfolding d_def m_def by (cases dt) simp
  show "strptime s = Some dt"
    unfolding strptime_expand_year f using v unfolding dt
    by (simp add: p)
qed


section \<open>Comment shapes and validation results\<close>




















lemma collect_Inr: "collect r1 r2 = Inr (a, b) \<longleftrightarrow> r1 = Inr a \<and> r2 = Inr b"
  by (cases "(r1, r2)" rule: collect.cases) auto

lemma at_loc_Inr: "at_loc l r = Inr x \<longleftrightarrow> r = Inr x"
  by (auto simp: at_loc_def split: sum.splits error.splits)

lemma value_error_Inr: "value_error v r = Inr x \<longleftrightarrow> r = Inr x"
  by (auto simp: value_error_def split: sum.splits error.splits)

lemma field_Inr:
  "field kv name validator = Inr x \<longleftrightarrow> (\<exists>v. map_of kv name = Some v \<and> validator v = Inr x)"
  by (cases "map_of kv name") (simp_all add: field_def at_loc_Inr)

lemma InstagramData_validate_dates_valid:
  "InstagramData_validate_dates v = Inr d \<Longrightarrow> valid_date d"
  by (cases v) (auto simp: InstagramData_validate_dates_def strptime_iff date_text_def
      split: option.splits)

lemma Comment_validate_dates_valid:
  "Comment_validate_dates v = Inr d \<Longrightarrow> valid_date d"
  by (cases v) (auto simp: Comment_validate_dates_def strptime_iff date_text_def
      split: option.splits)

lemma Comment_validate_valid:
  assumes "Comment_validate v = Inr c"
  shows "valid_date (comment_date c)"
proof (cases v)
  case (JObj kv)
  let ?r = "collect (field kv ''date'' (\<lambda>x. value_error x (Comment_validate_dates x)))
                 (collect (field kv ''user'' validate_str) (field kv ''count'' validate_int))"
  from assms obtain d u n where r: "?r = Inr (d, u, n)" and c: "comment_date c = d"
    unfolding JObj Comment_validate_def by (cases ?r) auto
  from r obtain x where "Comment_validate_dates x = Inr d"
    unfolding collect_Inr field_Inr value_error_Inr by blast
  then show ?thesis unfolding c by (rule Comment_validate_dates_valid)
qed (use assms in \<open>simp_all add: Comment_validate_def\<close>)

lemma validate_items_valid:
  "validate_items i xs = Inr cs \<Longrightarrow> list_all (\<lambda>c. valid_date (comment_date c)) cs"
proof (induction xs arbitrary: i cs)
  case Nil
  then show ?case by auto
next
  case (Cons x xs)
  let ?r = "collect (at_loc (Idx i) (Comment_validate x)) (validate_items (Suc i) xs)"
  from Cons.prems obtain c cs' where r: "?r = Inr (c, cs')" and cs: "cs = c # cs'"
    by (cases ?r) auto
  from r have "Comment_validate x = Inr c" "validate_items (Suc i) xs = Inr cs'"
    unfolding collect_Inr at_loc_Inr by blast+
  then show ?case unfolding cs using Cons.IH Comment_validate_valid by simp
qed

lemma validate_comments_valid:
  assumes "validate_comments v = Inr cs"
  shows "list_all (\<lambda>c. valid_date (comment_date c)) cs"
proof -
  from assms obtain v' where "validate_list v' = Inr cs"
    unfolding validate_comments_def by (auto split: sum.splits)
  then obtain xs where "validate_items 0 xs = Inr cs"
    unfolding validate_list_def by (cases v') auto
  then show ?thesis by (rule validate_items_valid)
qed

lemma model_validate_valid_dates:
  assumes "model_validate raw = Inr ig"
  shows "valid_dates ig \<and> 1 \<le> monthlyPostingDay ig \<and> monthlyPostingDay ig \<le> 31"
proof (cases raw)
  case (JObj kv)
  let ?r = "collect (field kv ''periodStart'' (\<lambda>x. value_error x (InstagramData_validate_dates x)))
                 (collect (field kv ''periodEnd'' (\<lambda>x. value_error x (InstagramData_validate_dates x)))
                   (collect (field kv ''monthlyPostingDay'' validate_monthlyPostingDay)
                            (field kv ''comments'' validate_comments)))"
  from assms obtain s e p cs where r: "?r = Inr (s, e, p, cs)"
    and ig: "ig = \<lparr>periodStart = s, periodEnd = e, monthlyPostingDay = p, comments = cs\<rparr>"
    unfolding JObj model_validate_def by (cases ?r) auto
  from r obtain x1 x2 x3 x4 where
    f: "InstagramData_validate_dates x1 = Inr s" "InstagramData_validate_dates x2 = Inr e"
       "validate_monthlyPostingDay x3 = Inr p" "validate_comments x4 = Inr cs"
    unfolding collect_Inr field_Inr value_error_Inr by blast
  have "1 \<le> p \<and> p \<le> 31"
    using f(3) unfolding validate_monthlyPostingDay_def validate_day_def
    by (auto simp: value_error_Inr split: sum.splits if_splits)
  then show ?thesis
    unfolding ig valid_dates_def
    using InstagramData_validate_dates_valid[OF f(1)] InstagramData_validate_dates_valid[OF f(2)]
      validate_comments_valid[OF f(4)]
    by simp
qed (use assms in \<open>simp_all add: model_validate_def\<close>)

section \<open>The example raw records, evaluated\<close>

lemmas strptime_eval = strptime_def format_regex_match_def match_d_def match_m_def match_y_def
  rgroup_def re_d_def re_m_def re_y_def py_int_def digit_value_def valid_date_def
  days_in_month_def is_leap_def

lemma strptime_040421: "strptime ''04/04/21'' = Some (Datetime 2021 4 4)"
  by (simp add: strptime_eval)

lemma strptime_060421: "strptime ''06/04/21'' = Some (Datetime 2021 4 6)"
  by (simp add: strptime_eval)

lemma strptime_5421: "strptime ''5/4/21'' = Some (Datetime 2021 4 5)"
  by (simp add: strptime_eval)



lemma strptime_iso: "strptime ''2021-03-11'' = None"
  by (simp add: strptime_eval)

lemma strptime_310221: "strptime ''31/02/21'' = None"
  by (simp add: strptime_eval)

lemmas validate_eval = model_validate_def field_def value_error_def at_loc_def
  InstagramData_validate_dates_def Comment_validate_dates_def validate_monthlyPostingDay_def
  validate_int_def validate_day_def validate_comments_def convert_comments_def convert_item_def
  is_list_def validate_list_def Comment_validate_def validate_str_def

lemma model_validate_raw_dup: "model_validate raw_dup = Inr ig_dup"
  by (simp add: raw_dup_def ig_dup_def validate_eval strptime_040421 strptime_060421 strptime_5421)

section \<open>The claims\<close>

subsection \<open>Rows of the daily calendar\<close>

text \<open>
  C1. The claim: for a period with periodStart \<open>\<le>\<close> periodEnd the builder returns exactly
  \<open>(periodEnd - periodStart).days + 1\<close> rows, one per date, the dates strictly ascending
  with no duplicates. The code does not do this when two comments share a date of the
  period: the left join repeats the row of that date once per comment. The raw record
  \<open>raw_dup\<close> (4 to 6 April 2021, the two comments of 5 April) is validated to \<open>ig_dup\<close>;
  the inclusive day count is 3 and the builder returns four rows, two of them dated
  5 April.
\<close>

theorem daily_rows_repeat_per_comment:
  "model_validate raw_dup = Inr ig_dup \<and>
   toordinal (periodStart ig_dup) \<le> toordinal (periodEnd ig_dup) \<and>
   toordinal (periodEnd ig_dup) - toordinal (periodStart ig_dup) + 1 = 3 \<and>
   length (initialise_daily_data ig_dup) = 4 \<and>
   map date (initialise_daily_data ig_dup) =
     [Datetime 2021 4 4, Datetime 2021 4 5, Datetime 2021 4 5, Datetime 2021 4 6] \<and>
   \<not> distinct (map date (initialise_daily_data ig_dup))"
  by (simp add: initialise_daily_data_dup model_validate_raw_dup)
     (simp add: ig_dup_def toordinal_def days_before_year_def days_before_month_def is_leap_def)

text \<open>
  C2. The claim: the row of a date carries the sum of the counts of all comments of that
  date. On the same record the code leaves the two comments of 5 April (counts 6 and 2,
  together 8) on two rows of that date, with \<open>num_comments\<close> 6 and 2; no row carries 8.
  Both rows are flagged as a post day, so the month counts two posts for one posting day.
\<close>

theorem daily_comments_not_summed:
  "sum_list (map comment_count
      (filter (\<lambda>c. comment_date c = Datetime 2021 4 5) (comments ig_dup))) = 8 \<and>
   map num_comments
      (filter (\<lambda>r. date r = Datetime 2021 4 5) (initialise_daily_data ig_dup)) = [6, 2] \<and>
   8 \<notin> set (map num_comments (initialise_daily_data ig_dup)) \<and>
   sum_list (map post_day (initialise_daily_data ig_dup)) = 2"
  by (simp add: initialise_daily_data_dup) (simp add: ig_dup_def)

subsection \<open>Comments inside and outside the period\<close>



subsection \<open>Daily totals\<close>


subsection \<open>Monthly aggregation\<close>



text \<open>
  C6. For every daily calendar the monthly table has exactly one row for each calendar
  month that holds at least one daily row, and no other row: the \<open>month_date\<close>s are the
  first days of the months of the daily rows, without repetition, in ascending order.
\<close>

theorem monthly_rows:
  assumes "daily_calendar (daily_data_df a)"
  shows "\<exists>m a'. calculate_monthly_aggregates a = Inr (m, a') \<and>
           sorted_wrt (<) (map (\<lambda>x. toordinal (month_date x)) m) \<and>
           distinct (map month_date m) \<and>
           set (map month_date m) = (\<lambda>r. truncate_1mo (date r)) ` set (daily_data_df a)"
proof -
  let ?m = "map (\<lambda>(k, g). \<lparr>month_date = k, num_posts = sum_list (map post_day g),
                        month_num_comments = sum_list (map num_comments g)\<rparr>) (windows (daily_data_df a))"
  have md: "map month_date ?m = map fst (windows (daily_data_df a))"
    by (simp add: comp_def case_prod_unfold)
  have s: "sorted_wrt (<) (map toordinal (map month_date ?m))"
    unfolding md using assms sorted_keys_windows[of "daily_data_df a"]
    by (simp add: daily_calendar_def list_all_iff comp_def)
  then have "distinct (map toordinal (map month_date ?m))"
    using strict_sorted_iff by blast
  then have d: "distinct (map month_date ?m)"
    by (rule distinct_map[THEN iffD1, THEN conjunct1])
  have k: "set (map month_date ?m) = (\<lambda>r. truncate_1mo (date r)) ` set (daily_data_df a)"
    unfolding md using set_keys_windows[of "daily_data_df a"] by simp
  from s have s': "sorted_wrt (<) (map (\<lambda>x. toordinal (month_date x)) ?m)"
    by (simp add: comp_def)
  show ?thesis
    unfolding calculate_monthly_aggregates_Inr[OF assms] using s' d k by blast
qed

theorem monthly_rows_witness:
  "daily_calendar (daily_data_df (ActivityAggregator ig_feb)) \<and>
   (\<exists>m a'. calculate_monthly_aggregates (ActivityAggregator ig_feb) = Inr (m, a') \<and>
      sorted_wrt (<) (map (\<lambda>x. toordinal (month_date x)) m) \<and>
      distinct (map month_date m) \<and>
      set (map month_date m) = {Datetime 2021 2 1, Datetime 2021 3 1})"
proof -
  have h: "daily_calendar (daily_data_df (ActivityAggregator ig_feb))"
    using valid_dates_feb
    by (simp add: ActivityAggregator_def initialise_daily_data_calendar valid_dates_def)
  from monthly_rows[OF h] h show ?thesis
    by (simp add: ActivityAggregator_def initialise_daily_data_feb truncate_1mo_def)
qed


subsection \<open>Posting days that a month does not have\<close>



subsection \<open>Validation of date fields\<close>



subsection \<open>The two forms of the comments array\<close>




end
